theory Spec2Isabelle
  imports Main
begin

section \<open>Text and character classes\<close>

text \<open>
  The script \<^verbatim>\<open>generate_alt_text.py\<close> works on Python \<^verbatim>\<open>str\<close> values. A text is
  modelled as a \<^typ>\<open>string\<close>, each \<^typ>\<open>char\<close> read as the code point of that number,
  so the model covers the texts whose code points are below 256. The classes below are
  the ones Python's \<^verbatim>\<open>re\<close> uses for \<^verbatim>\<open>str\<close> patterns on that range.
\<close>

definition is_space :: "char \<Rightarrow> bool" where
  \<comment> \<open>\<^verbatim>\<open>\s\<close>: tab, LF, VT, FF, CR, FS, GS, RS, US, space, NEL, NBSP\<close>
  "is_space c =
     (let n = (of_char c :: nat)
      in (9 \<le> n \<and> n \<le> 13) \<or> (28 \<le> n \<and> n \<le> 32) \<or> n = 133 \<or> n = 160)"

definition is_word :: "char \<Rightarrow> bool" where
  \<comment> \<open>\<^verbatim>\<open>\w\<close>: alphanumeric code points and the underscore\<close>
  "is_word c =
     (let n = (of_char c :: nat)
      in (48 \<le> n \<and> n \<le> 57) \<or> (65 \<le> n \<and> n \<le> 90) \<or> n = 95 \<or> (97 \<le> n \<and> n \<le> 122)
         \<or> n = 170 \<or> n = 178 \<or> n = 179 \<or> n = 181 \<or> n = 185 \<or> n = 186
         \<or> (188 \<le> n \<and> n \<le> 190) \<or> (192 \<le> n \<and> n \<le> 214)
         \<or> (216 \<le> n \<and> n \<le> 246) \<or> (248 \<le> n \<and> n \<le> 255))"

definition ascii_lower :: "char \<Rightarrow> char" where
  "ascii_lower c =
     (let n = (of_char c :: nat)
      in if 65 \<le> n \<and> n \<le> 90 then char_of (n + 32) else c)"

section \<open>Regular expressions as Python's \<^verbatim>\<open>re\<close> matches them\<close>

datatype cls =
    Ch char               \<comment> \<open>a literal character\<close>
  | ChI char              \<comment> \<open>a literal (lower-case) letter under \<^verbatim>\<open>re.I\<close>\<close>
  | OneOf "char list"     \<comment> \<open>\<^verbatim>\<open>[...]\<close>\<close>
  | NoneOf "char list"    \<comment> \<open>\<^verbatim>\<open>[^...]\<close>\<close>
  | Space                 \<comment> \<open>\<^verbatim>\<open>\s\<close>\<close>

fun cls_ok :: "cls \<Rightarrow> char \<Rightarrow> bool" where
  "cls_ok (Ch a) c = (c = a)"
| "cls_ok (ChI a) c = (ascii_lower c = a)"
| "cls_ok (OneOf as) c = (c \<in> set as)"
| "cls_ok (NoneOf as) c = (c \<notin> set as)"
| "cls_ok Space c = is_space c"

datatype regex =
    Eps
  | Atom cls
  | Rep cls nat           \<comment> \<open>greedy repetition of a class, at least \<open>n\<close> times: \<^verbatim>\<open>*\<close> is 0, \<^verbatim>\<open>+\<close> is 1\<close>
  | Cat regex regex
  | Opt regex             \<comment> \<open>greedy \<^verbatim>\<open>(?:...)?\<close>\<close>
  | Grp regex             \<comment> \<open>a capturing group\<close>
  | WordB                 \<comment> \<open>\<^verbatim>\<open>\b\<close>\<close>

text \<open>
  \<open>rmatch r prev s\<close> lists every way \<open>r\<close> matches a prefix of \<open>s\<close>, in the order in
  which the backtracking matcher tries them (longest repetition first, an optional part
  taken before it is skipped); \<open>prev\<close> is the character before \<open>s\<close> in the whole text.
  Each way is the list of captured groups, the consumed prefix and the rest. The
  engine returns the first one.
\<close>

type_synonym way = "string list \<times> string \<times> string"

definition prev_after :: "char option \<Rightarrow> string \<Rightarrow> char option" where
  "prev_after prev consumed = (if consumed = [] then prev else Some (last consumed))"

definition at_boundary :: "char option \<Rightarrow> string \<Rightarrow> bool" where
  "at_boundary prev s =
     ((case prev of None \<Rightarrow> False | Some c \<Rightarrow> is_word c)
      \<noteq> (case s of [] \<Rightarrow> False | c # _ \<Rightarrow> is_word c))"

fun rmatch :: "regex \<Rightarrow> char option \<Rightarrow> string \<Rightarrow> way list" where
  "rmatch Eps prev s = [([], [], s)]"
| "rmatch (Atom c) prev s =
     (case s of [] \<Rightarrow> [] | x # xs \<Rightarrow> if cls_ok c x then [([], [x], xs)] else [])"
| "rmatch (Rep c n) prev s =
     map (\<lambda>k. ([], take k s, drop k s)) (rev [n ..< Suc (length (takeWhile (cls_ok c) s))])"
| "rmatch (Cat a b) prev s =
     concat (map (\<lambda>(g1, c1, r1).
                    map (\<lambda>(g2, c2, r2). (g1 @ g2, c1 @ c2, r2)) (rmatch b (prev_after prev c1) r1))
                 (rmatch a prev s))"
| "rmatch (Opt a) prev s = rmatch a prev s @ [([], [], s)]"
| "rmatch (Grp a) prev s = map (\<lambda>(g, c, r). (c # g, c, r)) (rmatch a prev s)"
| "rmatch WordB prev s = (if at_boundary prev s then [([], [], s)] else [])"

definition match_at :: "regex \<Rightarrow> char option \<Rightarrow> string \<Rightarrow> way option" where
  "match_at r prev s = (case rmatch r prev s of [] \<Rightarrow> None | w # _ \<Rightarrow> Some w)"

definition seq :: "regex list \<Rightarrow> regex" where
  "seq rs = foldr Cat rs Eps"

definition lit :: "string \<Rightarrow> regex" where
  "lit s = seq (map (\<lambda>c. Atom (Ch c)) s)"

definition lit_i :: "string \<Rightarrow> regex" where
  "lit_i s = seq (map (\<lambda>c. Atom (ChI c)) s)"

subsection \<open>Match objects, \<^verbatim>\<open>search\<close> and \<^verbatim>\<open>finditer\<close>\<close>

record rmatch_obj =
  m_start :: nat
  m_end :: nat
  m_groups :: "string list"

definition group :: "rmatch_obj \<Rightarrow> nat \<Rightarrow> string" where
  \<comment> \<open>\<^verbatim>\<open>m.group(k)\<close> for \<open>k \<ge> 1\<close>; every group of the patterns below takes part in every match\<close>
  "group m k = (if 1 \<le> k \<and> k \<le> length (m_groups m) then m_groups m ! (k - 1) else [])"

definition group0 :: "string \<Rightarrow> rmatch_obj \<Rightarrow> string" where
  \<comment> \<open>\<^verbatim>\<open>m.group(0)\<close>, the matched span of the text\<close>
  "group0 text m = take (m_end m - m_start m) (drop (m_start m) text)"

fun search_from :: "regex \<Rightarrow> char option \<Rightarrow> string \<Rightarrow> nat \<Rightarrow> rmatch_obj option" where
  "search_from r prev [] i =
     (case match_at r prev [] of
        Some (g, c, _) \<Rightarrow> Some \<lparr>m_start = i, m_end = i + length c, m_groups = g\<rparr>
      | None \<Rightarrow> None)"
| "search_from r prev (x # xs) i =
     (case match_at r prev (x # xs) of
        Some (g, c, _) \<Rightarrow> Some \<lparr>m_start = i, m_end = i + length c, m_groups = g\<rparr>
      | None \<Rightarrow> search_from r (Some x) xs (Suc i))"

definition search :: "regex \<Rightarrow> string \<Rightarrow> nat \<Rightarrow> rmatch_obj option" where
  \<comment> \<open>\<^verbatim>\<open>pattern.search(text, pos)\<close>: the leftmost match starting at \<open>pos\<close> or later;
      a \<open>pos\<close> beyond the end of the text counts as the end\<close>
  "search r text pos =
     (let p = min pos (length text)
      in search_from r (if p = 0 then None else Some (text ! (p - 1))) (drop p text) p)"

function finditer_from :: "regex \<Rightarrow> string \<Rightarrow> nat \<Rightarrow> rmatch_obj list" where
  "finditer_from r text pos =
     (if length text < pos then []
      else case search r text pos of
             None \<Rightarrow> []
           | Some m \<Rightarrow>
               m # finditer_from r text (if m_end m = m_start m then Suc (m_end m) else m_end m))"
  by pat_completeness auto
termination
proof (relation "measure (\<lambda>(r, text, pos). Suc (length text) - pos)")
  show "wf (measure (\<lambda>(r, text, pos). Suc (length text) - pos))" by simp
next
  fix r :: regex and t :: string and pos :: nat and m :: rmatch_obj
  assume inside: "\<not> length t < pos" and found: "search r t pos = Some m"
  have from_bounds: "search_from r prev s i = Some m \<Longrightarrow>
      i \<le> m_start m \<and> m_start m \<le> i + length s \<and> m_start m \<le> m_end m" for prev s i
  proof (induction s arbitrary: prev i)
    case Nil
    then show ?case by (auto split: option.splits)
  next
    case (Cons x xs)
    show ?case
    proof (cases "match_at r prev (x # xs)")
      case None
      with Cons.prems have "search_from r (Some x) xs (Suc i) = Some m" by simp
      from Cons.IH [OF this] show ?thesis by simp
    next
      case (Some w)
      with Cons.prems show ?thesis by (auto split: prod.splits)
    qed
  qed
  from inside have "min pos (length t) = pos" by simp
  with found have "pos \<le> m_start m" "m_start m \<le> length t" "m_start m \<le> m_end m"
    unfolding search_def Let_def by (auto dest!: from_bounds)
  then show "((r, t, if m_end m = m_start m then Suc (m_end m) else m_end m), r, t, pos)
             \<in> measure (\<lambda>(r, text, pos). Suc (length text) - pos)"
    by auto
qed

declare finditer_from.simps [simp del]

definition finditer :: "regex \<Rightarrow> string \<Rightarrow> rmatch_obj list" where
  \<comment> \<open>\<^verbatim>\<open>pattern.finditer(text)\<close>: the non-overlapping matches, left to right; each search
      starts where the last match ended (one further after an empty match; none of the
      patterns of the script matches the empty string)\<close>
  "finditer r text = finditer_from r text 0"

section \<open>The four patterns of the script\<close>

definition MD_IMG_RE :: regex where
  \<comment> \<open>\<^verbatim>\<open>!\[([^\]]*)\]\(([^) ]+)(?:\s+"[^"]*")?\)\<close>\<close>
  "MD_IMG_RE =
     seq [lit ''!['', Grp (Rep (NoneOf '']'') 0), lit ''](''
         , Grp (Rep (NoneOf '') '') 1)
         , Opt (seq [Rep Space 1, Atom (Ch (CHR 0x22)), Rep (NoneOf [CHR 0x22]) 0, Atom (Ch (CHR 0x22))])
         , lit '')'']"

definition HTML_IMG_RE :: regex where
  \<comment> \<open>\<^verbatim>\<open><img\b[^>]*>\<close> with \<^verbatim>\<open>re.I\<close>\<close>
  "HTML_IMG_RE = seq [Atom (Ch CHR ''<''), lit_i ''img'', WordB, Rep (NoneOf ''>'') 0, Atom (Ch CHR ''>'')]"

definition SRC_RE :: regex where
  \<comment> \<open>\<^verbatim>\<open>src=["\']([^"\']+)["\']\<close> with \<^verbatim>\<open>re.I\<close>\<close>
  "SRC_RE =
     seq [lit_i ''src'', Atom (Ch CHR ''=''), Atom (OneOf [CHR 0x22, CHR 0x27])
         , Grp (Rep (NoneOf [CHR 0x22, CHR 0x27]) 1), Atom (OneOf [CHR 0x22, CHR 0x27])]"

definition ALT_RE :: regex where
  \<comment> \<open>\<^verbatim>\<open>alt=["\']([^"\']*)["\']\<close> with \<^verbatim>\<open>re.I\<close>\<close>
  "ALT_RE =
     seq [lit_i ''alt'', Atom (Ch CHR ''=''), Atom (OneOf [CHR 0x22, CHR 0x27])
         , Grp (Rep (NoneOf [CHR 0x22, CHR 0x27]) 0), Atom (OneOf [CHR 0x22, CHR 0x27])]"

section \<open>The image locator\<close>

datatype kind = Md | Html

type_synonym image_ref = "kind \<times> string \<times> nat"

definition html_ref :: "string \<Rightarrow> rmatch_obj \<Rightarrow> image_ref list" where
  "html_ref text m =
     (case search SRC_RE (group0 text m) 0 of
        Some s \<Rightarrow> [(Html, group s 1, m_start m)]
      | None \<Rightarrow> [])"

definition find_images_in_markdown :: "string \<Rightarrow> image_ref list" where
  "find_images_in_markdown text =
     map (\<lambda>m. (Md, group m 2, m_start m)) (finditer MD_IMG_RE text)
     @ concat (map (html_ref text) (finditer HTML_IMG_RE text))"

fun ref_kind :: "image_ref \<Rightarrow> kind" where
  "ref_kind (k, src, pos) = k"

fun ref_offset :: "image_ref \<Rightarrow> nat" where
  "ref_offset (k, src, pos) = pos"

definition md_ref :: "string \<Rightarrow> string \<Rightarrow> string \<Rightarrow> string" where
  \<comment> \<open>the Markdown reference \<^verbatim>\<open>![alt](src "title")\<close>\<close>
  "md_ref alt src title = ''!['' @ alt @ '']('' @ src @ '' '' @ [CHR 0x22] @ title @ [CHR 0x22] @ '')''"

section \<open>Exceptions that leave \<^verbatim>\<open>process_file\<close>\<close>

text \<open>
  An exception raised outside the two \<^verbatim>\<open>try\<close> blocks of \<^verbatim>\<open>process_file\<close> ends the call
  and the run. It is the \<open>Inl\<close> result of the function that raises it.
\<close>

datatype error =
    TemplateError           \<comment> \<open>\<^verbatim>\<open>re.error\<close> or \<^verbatim>\<open>IndexError\<close> from a replacement template\<close>
  | OSError                 \<comment> \<open>from \<^verbatim>\<open>Path.exists\<close>, for example a file name that is too long\<close>
  | FileNotFoundError
  | ValueError

section \<open>Paths and the path resolver\<close>

text \<open>
  A \<^verbatim>\<open>pathlib.Path\<close> on a POSIX system: whether it is absolute, and its components.
  Building one from a string drops empty and \<^verbatim>\<open>.\<close> components.
\<close>

datatype path = Path (is_abs: bool) (parts: "string list")

fun split_on :: "char \<Rightarrow> string \<Rightarrow> string list" where
  \<comment> \<open>\<^verbatim>\<open>s.split(c)\<close>\<close>
  "split_on c [] = [[]]"
| "split_on c (x # xs) =
     (if x = c then [] # split_on c xs
      else (case split_on c xs of
              [] \<Rightarrow> [[x]]
            | y # ys \<Rightarrow> (x # y) # ys))"

definition startswith :: "string \<Rightarrow> string \<Rightarrow> bool" where
  \<comment> \<open>\<^verbatim>\<open>s.startswith(p)\<close>\<close>
  "startswith s p = (take (length p) s = p)"

definition lstrip :: "char \<Rightarrow> string \<Rightarrow> string" where
  "lstrip c s = dropWhile (\<lambda>x. x = c) s"

definition rstrip :: "char \<Rightarrow> string \<Rightarrow> string" where
  "rstrip c s = rev (dropWhile (\<lambda>x. x = c) (rev s))"

definition to_path :: "string \<Rightarrow> path" where
  \<comment> \<open>\<^verbatim>\<open>Path(s)\<close>; the resolver only builds paths from strings with no leading slash\<close>
  "to_path s = Path (startswith s ''/'') (filter (\<lambda>p. p \<noteq> [] \<and> p \<noteq> ''.'') (split_on CHR ''/'' s))"

definition join :: "path \<Rightarrow> path \<Rightarrow> path" where
  \<comment> \<open>\<^verbatim>\<open>a / b\<close>\<close>
  "join a b = (if is_abs b then b else Path (is_abs a) (parts a @ parts b))"

definition parent :: "path \<Rightarrow> path" where
  "parent p = Path (is_abs p) (butlast (parts p))"

text \<open>
  \<^verbatim>\<open>Path.exists\<close> asks the file system. It returns \<^verbatim>\<open>False\<close> for a missing file, and
  it raises \<^verbatim>\<open>OSError\<close> where the file system refuses the name itself (a component
  longer than the file system allows, for one). So an existence check is a function
  \<open>path \<Rightarrow> error + bool\<close>.
\<close>

fun first_existing :: "(path \<Rightarrow> error + bool) \<Rightarrow> path list \<Rightarrow> error + path option" where
  \<comment> \<open>the loop \<^verbatim>\<open>for c in candidates: if c.exists(): return c\<close>\<close>
  "first_existing ex [] = Inr None"
| "first_existing ex (c # cs) =
     (case ex c of
        Inl err \<Rightarrow> Inl err
      | Inr found \<Rightarrow> if found then Inr (Some c) else first_existing ex cs)"

definition strip_query :: "string \<Rightarrow> string" where
  \<comment> \<open>\<^verbatim>\<open>src.split("?")[0].split("#")[0]\<close>\<close>
  "strip_query src = hd (split_on CHR ''#'' (hd (split_on CHR ''?'' src)))"

definition candidates :: "string \<Rightarrow> path \<Rightarrow> path list" where
  "candidates p md_path =
     (if startswith p ''/''
      then [join (to_path ''static'') (to_path (lstrip CHR ''/'' p)), to_path (lstrip CHR ''/'' p)]
      else [join (parent md_path) (to_path p), join (to_path ''static'') (to_path p), to_path p])"

definition resolve_image_path :: "(path \<Rightarrow> error + bool) \<Rightarrow> string \<Rightarrow> path \<Rightarrow> error + path option" where
  \<comment> \<open>\<open>ex\<close> is \<^verbatim>\<open>Path.exists\<close> on the file system of the run; \<open>Inr None\<close> is Python's \<^verbatim>\<open>None\<close>\<close>
  "resolve_image_path ex src md_path =
     (let p = strip_query src
      in if startswith p ''http://'' \<or> startswith p ''https://'' then Inr None
         else (case first_existing ex (candidates p md_path) of
                 Inl err \<Rightarrow> Inl err
               | Inr (Some c) \<Rightarrow> Inr (Some c)
               | Inr None \<Rightarrow> Inr (Some (hd (candidates p md_path)))))"



section \<open>Replacement templates and \<^verbatim>\<open>sub\<close>\<close>

text \<open>
  \<^verbatim>\<open>pattern.sub(repl, text)\<close> with a string \<open>repl\<close> reads \<open>repl\<close> as a template: a
  backslash starts an escape, a group reference or an octal code. The parser below is
  \<^verbatim>\<open>parse_template\<close> of the standard library (Python 3.7 and later; a name in
  \<^verbatim>\<open>\g<...>\<close> that is not a plain decimal number is refused, as from 3.12). The patterns
  of the script have no named group. Every error raised here is \<^verbatim>\<open>re.error\<close> or
  \<^verbatim>\<open>IndexError\<close>.
\<close>

datatype titem = TLit char | TGroup nat

definition is_digit :: "char \<Rightarrow> bool" where
  "is_digit c = (48 \<le> (of_char c :: nat) \<and> (of_char c :: nat) \<le> 57)"

definition is_octdigit :: "char \<Rightarrow> bool" where
  "is_octdigit c = (48 \<le> (of_char c :: nat) \<and> (of_char c :: nat) \<le> 55)"

definition is_ascii_letter :: "char \<Rightarrow> bool" where
  "is_ascii_letter c =
     (let n = (of_char c :: nat) in (65 \<le> n \<and> n \<le> 90) \<or> (97 \<le> n \<and> n \<le> 122))"

definition digit_val :: "char \<Rightarrow> nat" where
  "digit_val c = of_char c - 48"

definition number_of :: "nat \<Rightarrow> string \<Rightarrow> nat" where
  \<comment> \<open>\<^verbatim>\<open>int(ds, base)\<close> on a string of digits\<close>
  "number_of base ds = foldl (\<lambda>a c. a * base + digit_val c) 0 ds"

definition escape_of :: "char \<Rightarrow> char option" where
  \<comment> \<open>the table \<^verbatim>\<open>ESCAPES\<close>: \<^verbatim>\<open>\a \b \f \n \r \t \v \\\<close>\<close>
  "escape_of c =
     (if c = CHR ''a'' then Some (CHR 0x07) else if c = CHR ''b'' then Some (CHR 0x08)
      else if c = CHR ''f'' then Some (CHR 0x0C) else if c = CHR ''n'' then Some (CHR 0x0A)
      else if c = CHR ''r'' then Some (CHR 0x0D) else if c = CHR ''t'' then Some (CHR 0x09)
      else if c = CHR ''v'' then Some (CHR 0x0B) else if c = CHR 0x5C then Some (CHR 0x5C)
      else None)"

definition add_item :: "titem list \<Rightarrow> error + titem list \<Rightarrow> error + titem list" where
  "add_item xs r = (case r of Inl e \<Rightarrow> Inl e | Inr ys \<Rightarrow> Inr (xs @ ys))"

function parse_template :: "nat \<Rightarrow> string \<Rightarrow> error + titem list" where
  "parse_template ngroups [] = Inr []"
| "parse_template ngroups (c # cs) =
     (if c \<noteq> CHR 0x5C then add_item [TLit c] (parse_template ngroups cs)
      else case cs of
        [] \<Rightarrow> Inl TemplateError
      | e # rest \<Rightarrow>
          if e = CHR ''g'' then
            (if \<not> startswith rest ''<'' then Inl TemplateError
             else let body = tl rest; name = takeWhile (\<lambda>x. x \<noteq> CHR ''>'') body
                  in if CHR ''>'' \<notin> set body \<or> name = [] \<or> \<not> list_all is_digit name
                        \<or> ngroups < number_of 10 name
                     then Inl TemplateError
                     else add_item [TGroup (number_of 10 name)]
                            (parse_template ngroups (tl (dropWhile (\<lambda>x. x \<noteq> CHR ''>'') body))))
          else if e = CHR ''0'' then
            (let ds = takeWhile is_octdigit (take 2 rest)
             in add_item [TLit (char_of (number_of 8 ds mod 256))]
                  (parse_template ngroups (drop (length ds) rest)))
          else if is_digit e then
            (if rest \<noteq> [] \<and> is_digit (hd rest) then
               (if is_octdigit e \<and> is_octdigit (hd rest) \<and> tl rest \<noteq> [] \<and> is_octdigit (hd (tl rest))
                then (if 255 < number_of 8 (e # take 2 rest) then Inl TemplateError
                      else add_item [TLit (char_of (number_of 8 (e # take 2 rest)))]
                             (parse_template ngroups (drop 2 rest)))
                else (if ngroups < number_of 10 [e, hd rest] then Inl TemplateError
                      else add_item [TGroup (number_of 10 [e, hd rest])]
                             (parse_template ngroups (tl rest))))
             else (if ngroups < digit_val e then Inl TemplateError
                   else add_item [TGroup (digit_val e)] (parse_template ngroups rest)))
          else (case escape_of e of
                  Some x \<Rightarrow> add_item [TLit x] (parse_template ngroups rest)
                | None \<Rightarrow>
                    if is_ascii_letter e then Inl TemplateError
                    else add_item [TLit c, TLit e] (parse_template ngroups rest)))"
  by pat_completeness auto
termination
  apply (relation "measure (\<lambda>(n, s). length s)")
  apply simp_all
  apply (rule le_less_trans [OF diff_le_self])
  apply (rule le_less_trans [OF length_dropWhile_le])
  apply simp
  done

declare parse_template.simps [simp del]

fun expand :: "string \<Rightarrow> rmatch_obj \<Rightarrow> titem list \<Rightarrow> string" where
  "expand text m [] = []"
| "expand text m (TLit c # ts) = c # expand text m ts"
| "expand text m (TGroup k # ts) =
     (if k = 0 then group0 text m else group m k) @ expand text m ts"

fun sub_build :: "string \<Rightarrow> titem list \<Rightarrow> nat \<Rightarrow> rmatch_obj list \<Rightarrow> string" where
  "sub_build text tpl i [] = drop i text"
| "sub_build text tpl i (m # ms) =
     take (m_start m - i) (drop i text) @ expand text m tpl @ sub_build text tpl (m_end m) ms"

definition re_sub :: "regex \<Rightarrow> nat \<Rightarrow> string \<Rightarrow> string \<Rightarrow> error + string" where
  \<comment> \<open>\<^verbatim>\<open>pattern.sub(repl, text)\<close> for a pattern with \<open>ngroups\<close> groups: every match is replaced\<close>
  "re_sub r ngroups repl text =
     (case parse_template ngroups repl of
        Inl e \<Rightarrow> Inl e
      | Inr tpl \<Rightarrow> Inr (sub_build text tpl 0 (finditer r text)))"

section \<open>Captioning\<close>

text \<open>
  What the script reaches outside itself is a parameter of the model. A call that raises
  an exception \<open>e\<close> returns \<open>Inl\<close> of the message \<^verbatim>\<open>str(e)\<close>; a call that returns a
  caption returns \<open>Inr\<close> of it.
\<close>

record env =
  exists_file :: "path \<Rightarrow> error + bool"                \<comment> \<open>\<^verbatim>\<open>Path.exists\<close>\<close>
  caption_func :: "(path \<Rightarrow> string + string) option"   \<comment> \<open>the local captioner, \<open>None\<close> when there is none\<close>
  token :: "string option"                              \<comment> \<open>\<^verbatim>\<open>HF_API_TOKEN\<close>\<close>
  hf_api_file :: "path \<Rightarrow> string + string"             \<comment> \<open>\<^verbatim>\<open>caption_via_hf_api\<close> on a local image\<close>
  http_get :: "string \<Rightarrow> string + string"              \<comment> \<open>\<^verbatim>\<open>requests.get\<close> and \<^verbatim>\<open>raise_for_status\<close>: the content\<close>
  hf_api_bytes :: "string \<Rightarrow> string + string"          \<comment> \<open>\<^verbatim>\<open>caption_via_hf_api\<close> on a transient file with this content\<close>

text \<open>The transient files on disk: the names in use and the next name to hand out.\<close>

record tmpdir =
  live :: "nat list"
  fresh :: nat

definition error_caption :: "string \<Rightarrow> string" where
  \<comment> \<open>\<^verbatim>\<open>f"(error: {e})"\<close>\<close>
  "error_caption msg = ''(error: '' @ msg @ '')''"

definition truthy :: "string option \<Rightarrow> bool" where
  \<comment> \<open>\<^verbatim>\<open>if token\<close>: neither \<^verbatim>\<open>None\<close> nor the empty string\<close>
  "truthy t = (case t of None \<Rightarrow> False | Some s \<Rightarrow> s \<noteq> [])"

definition caption_local_image :: "env \<Rightarrow> path \<Rightarrow> string" where
  \<comment> \<open>lines 163 to 171: the image file exists\<close>
  "caption_local_image e img_path =
     (case caption_func e of
        Some f \<Rightarrow> (case f img_path of Inl msg \<Rightarrow> error_caption msg | Inr c \<Rightarrow> c)
      | None \<Rightarrow>
          if truthy (token e)
          then (case hf_api_file e img_path of Inl msg \<Rightarrow> error_caption msg | Inr c \<Rightarrow> c)
          else [])"

definition caption_remote_image :: "env \<Rightarrow> string \<Rightarrow> tmpdir \<Rightarrow> string \<times> tmpdir" where
  \<comment> \<open>lines 175 to 185: download to a transient file, caption it, unlink it\<close>
  "caption_remote_image e src tmp =
     (case http_get e src of
        Inl msg \<Rightarrow> (error_caption msg, tmp)
      | Inr content \<Rightarrow>
          (let name = fresh tmp;
               tmp1 = \<lparr>live = name # live tmp, fresh = Suc name\<rparr>
           in case hf_api_bytes e content of
                Inl msg \<Rightarrow> (error_caption msg, tmp1)
              | Inr c \<Rightarrow> (c, tmp1\<lparr>live := remove1 name (live tmp1)\<rparr>)))"

definition caption_elsewhere :: "env \<Rightarrow> string \<Rightarrow> tmpdir \<Rightarrow> string \<times> tmpdir" where
  \<comment> \<open>lines 173 to 187: no local file\<close>
  "caption_elsewhere e src tmp =
     (if truthy (token e) \<and> startswith src ''http'' then caption_remote_image e src tmp
      else ([], tmp))"

definition get_caption :: "env \<Rightarrow> string \<Rightarrow> path \<Rightarrow> tmpdir \<Rightarrow> error + string \<times> tmpdir" where
  \<comment> \<open>lines 160 to 187; the two existence checks (line 136 and line 162) are outside the
      \<^verbatim>\<open>try\<close> blocks\<close>
  "get_caption e src md_path tmp =
     (case resolve_image_path (exists_file e) src md_path of
        Inl err \<Rightarrow> Inl err
      | Inr None \<Rightarrow> Inr (caption_elsewhere e src tmp)
      | Inr (Some img_path) \<Rightarrow>
          (case exists_file e img_path of
             Inl err \<Rightarrow> Inl err
           | Inr found \<Rightarrow>
               if found then Inr (caption_local_image e img_path, tmp)
               else Inr (caption_elsewhere e src tmp)))"

definition caption_of :: "env \<Rightarrow> path \<Rightarrow> string \<Rightarrow> string" where
  \<comment> \<open>the caption of a source: what captioning returns, or the placeholder when it raises\<close>
  "caption_of e md_path src =
     (case get_caption e src md_path \<lparr>live = [], fresh = 0\<rparr> of
        Inl err \<Rightarrow> []
      | Inr (c, tmp) \<Rightarrow> c)"

section \<open>Processing one document\<close>

type_synonym change = "path \<times> kind \<times> string \<times> string \<times> string"

record lstate =
  s_txt :: string            \<comment> \<open>the variable \<^verbatim>\<open>txt\<close>\<close>
  s_changes :: "change list" \<comment> \<open>the variable \<^verbatim>\<open>changes\<close>\<close>
  s_tmp :: tmpdir

definition relocate :: "kind \<Rightarrow> string \<Rightarrow> nat \<Rightarrow> (rmatch_obj \<times> string) option" where
  \<comment> \<open>lines 146 to 157: search again from the recorded offset; the match and the current alt\<close>
  "relocate k t pos =
     (case k of
        Md \<Rightarrow> (case search MD_IMG_RE t pos of
                 None \<Rightarrow> None
               | Some m \<Rightarrow> Some (m, group m 1))
      | Html \<Rightarrow> (case search HTML_IMG_RE t pos of
                   None \<Rightarrow> None
                 | Some m \<Rightarrow>
                     Some (m, case search ALT_RE (group0 t m) 0 of
                                Some a \<Rightarrow> group a 1
                              | None \<Rightarrow> [])))"

definition new_tag :: "string \<Rightarrow> string \<Rightarrow> error + string" where
  \<comment> \<open>lines 196 to 201\<close>
  "new_tag tag caption =
     (if search ALT_RE tag 0 \<noteq> None
      then re_sub ALT_RE 1 (''alt='' @ [CHR 0x22] @ caption @ [CHR 0x22]) tag
      else Inr (rstrip CHR ''>'' tag @ '' alt='' @ [CHR 0x22] @ caption @ [CHR 0x22] @ ''>''))"

definition rewrite :: "kind \<Rightarrow> string \<Rightarrow> string \<Rightarrow> string \<Rightarrow> rmatch_obj \<Rightarrow> error + string" where
  \<comment> \<open>lines 193 to 202\<close>
  "rewrite k caption src t m =
     (case k of
        Md \<Rightarrow> Inr (take (m_start m) t @ ''!['' @ caption @ '']('' @ src @ '')'' @ drop (m_end m) t)
      | Html \<Rightarrow>
          (case new_tag (group0 t m) caption of
             Inl err \<Rightarrow> Inl err
           | Inr tag' \<Rightarrow> Inr (take (m_start m) t @ tag' @ drop (m_end m) t)))"

definition process_image :: "env \<Rightarrow> path \<Rightarrow> bool \<Rightarrow> image_ref \<Rightarrow> lstate \<Rightarrow> error + lstate" where
  \<comment> \<open>one turn of the loop of lines 144 to 202\<close>
  "process_image e md_path do_apply img st =
     (case img of (k, src, pos) \<Rightarrow>
        (case relocate k (s_txt st) pos of
           None \<Rightarrow> Inr st
         | Some (m, old_alt) \<Rightarrow>
             (case get_caption e src md_path (s_tmp st) of
                Inl err \<Rightarrow> Inl err
              | Inr (caption, tmp') \<Rightarrow>
                  (let st1 = st\<lparr>s_changes := s_changes st @ [(md_path, k, src, old_alt, caption)], s_tmp := tmp'\<rparr>
                   in if do_apply \<and> caption \<noteq> []
                      then (case rewrite k caption src (s_txt st) m of
                              Inl err \<Rightarrow> Inl err
                            | Inr t \<Rightarrow> Inr (st1\<lparr>s_txt := t\<rparr>))
                      else Inr st1))))"

fun process_images :: "env \<Rightarrow> path \<Rightarrow> bool \<Rightarrow> image_ref list \<Rightarrow> lstate \<Rightarrow> error + lstate" where
  "process_images e md_path do_apply [] st = Inr st"
| "process_images e md_path do_apply (img # imgs) st =
     (case process_image e md_path do_apply img st of
        Inl err \<Rightarrow> Inl err
      | Inr st' \<Rightarrow> process_images e md_path do_apply imgs st')"

text \<open>The storage: the text of each document, and the transient files.\<close>

record world =
  docs :: "path \<Rightarrow> string option"
  tmpfiles :: tmpdir

definition bak_path :: "path \<Rightarrow> error + path" where
  \<comment> \<open>\<^verbatim>\<open>path.with_suffix(path.suffix + ".bak")\<close>: the name with \<^verbatim>\<open>.bak\<close> appended\<close>
  "bak_path p =
     (if parts p = [] then Inl ValueError
      else Inr (Path (is_abs p) (butlast (parts p) @ [last (parts p) @ ''.bak''])))"

definition process_file :: "env \<Rightarrow> path \<Rightarrow> bool \<Rightarrow> world \<Rightarrow> error + change list \<times> world" where
  "process_file e md_path do_apply w =
     (case docs w md_path of
        None \<Rightarrow> Inl FileNotFoundError
      | Some t0 \<Rightarrow>
          (case process_images e md_path do_apply (find_images_in_markdown t0)
                  \<lparr>s_txt = t0, s_changes = [], s_tmp = tmpfiles w\<rparr> of
             Inl err \<Rightarrow> Inl err
           | Inr st \<Rightarrow>
               if do_apply \<and> s_txt st \<noteq> t0
               then (case bak_path md_path of
                       Inl err \<Rightarrow> Inl err
                     | Inr bak \<Rightarrow>
                         Inr (s_changes st,
                              \<lparr>docs = ((docs w)(bak \<mapsto> t0))(md_path \<mapsto> s_txt st), tmpfiles = s_tmp st\<rparr>))
               else Inr (s_changes st, w\<lparr>tmpfiles := s_tmp st\<rparr>)))"

fun run :: "env \<Rightarrow> bool \<Rightarrow> path list \<Rightarrow> change list \<Rightarrow> world \<Rightarrow> error + change list \<times> world" where
  \<comment> \<open>the loop of \<^verbatim>\<open>main\<close> over the documents, \<open>acc\<close> being \<^verbatim>\<open>all_changes\<close>\<close>
  "run e do_apply [] acc w = Inr (acc, w)"
| "run e do_apply (md # mds) acc w =
     (case process_file e md do_apply w of
        Inl err \<Rightarrow> Inl err
      | Inr (ch, w') \<Rightarrow> run e do_apply mds (acc @ ch) w')"

section \<open>Example documents and environments\<close>

definition doc_a :: path where
  "doc_a = Path False [''content'', ''a.md'']"

definition local_env :: "(path \<Rightarrow> string + string) \<Rightarrow> env" where
  \<comment> \<open>every image file exists, a local captioner \<open>f\<close>, no token\<close>
  "local_env f =
     \<lparr>exists_file = (\<lambda>p. Inr True), caption_func = Some f, token = None,
      hf_api_file = (\<lambda>p. Inl ''no token''), http_get = (\<lambda>u. Inl ''offline''),
      hf_api_bytes = (\<lambda>b. Inl ''no token'')\<rparr>"

definition remote_env :: "(string \<Rightarrow> string + string) \<Rightarrow> env" where
  \<comment> \<open>no local image, a token, every download succeeds, the remote captioner is \<open>api\<close>\<close>
  "remote_env api =
     \<lparr>exists_file = (\<lambda>p. Inr False), caption_func = None, token = Some ''hf_token'',
      hf_api_file = (\<lambda>p. Inl ''missing''), http_get = (\<lambda>u. Inr ''PNG''),
      hf_api_bytes = api\<rparr>"

definition one_doc :: "string \<Rightarrow> world" where
  "one_doc t = \<lparr>docs = [doc_a \<mapsto> t], tmpfiles = \<lparr>live = [], fresh = 0\<rparr>\<rparr>"

definition report_of :: "error + change list \<times> world \<Rightarrow> error + change list" where
  "report_of r = (case r of Inl err \<Rightarrow> Inl err | Inr (ch, w) \<Rightarrow> Inr ch)"

definition world_after :: "world \<Rightarrow> error + change list \<times> world \<Rightarrow> world" where
  \<comment> \<open>the storage after a call; a call that raises has written no document\<close>
  "world_after w r = (case r of Inl err \<Rightarrow> w | Inr (ch, w') \<Rightarrow> w')"


section \<open>Facts about the matcher\<close>

text \<open>
  The engine returns the first way of \<open>rmatch\<close>. For a sequence this is the first way
  of its head followed by the first way of its tail, whenever the tail matches there.
\<close>

lemma match_at_Eps: "match_at Eps prev s = Some ([], [], s)"
  by (simp add: match_at_def)

lemma match_at_Atom: "cls_ok c x \<Longrightarrow> match_at (Atom c) prev (x # xs) = Some ([], [x], xs)"
  by (simp add: match_at_def)

lemma match_at_Cat:
  assumes "match_at a prev s = Some (g1, c1, r1)"
    and "match_at b (prev_after prev c1) r1 = Some (g2, c2, r2)"
  shows "match_at (Cat a b) prev s = Some (g1 @ g2, c1 @ c2, r2)"
  using assms by (auto simp: match_at_def split: list.splits)

lemma match_at_Grp:
  "match_at a prev s = Some (g, c, r) \<Longrightarrow> match_at (Grp a) prev s = Some (c # g, c, r)"
  by (auto simp: match_at_def split: list.splits)

lemma match_at_Opt:
  "match_at a prev s = Some w \<Longrightarrow> match_at (Opt a) prev s = Some w"
  by (auto simp: match_at_def split: list.splits)

lemma takeWhile_stop:
  assumes "\<forall>x \<in> set u. P x" and "rest = [] \<or> \<not> P (hd rest)"
  shows "takeWhile P (u @ rest) = u"
  using assms by (cases rest) (auto simp: takeWhile_append2)

lemma match_at_Rep:
  assumes "\<forall>x \<in> set u. cls_ok c x" and "rest = [] \<or> \<not> cls_ok c (hd rest)" and "n \<le> length u"
  shows "match_at (Rep c n) prev (u @ rest) = Some ([], u, rest)"
proof -
  have tw: "takeWhile (cls_ok c) (u @ rest) = u"
    using assms(1,2) by (rule takeWhile_stop)
  have "rev [n ..< Suc (length u)] = length u # rev [n ..< length u]"
    using assms(3) by simp
  then show ?thesis by (simp add: match_at_def tw)
qed

lemma match_at_lit: "match_at (lit u) prev (u @ rest) = Some ([], u, rest)"
proof (induction u arbitrary: prev)
  case Nil
  then show ?case by (simp add: lit_def seq_def match_at_Eps)
next
  case (Cons x u)
  have a: "match_at (Atom (Ch x)) prev (x # u @ rest) = Some ([], [x], u @ rest)"
    by (rule match_at_Atom) simp
  from Cons.IH [of "prev_after prev [x]"]
  have b: "match_at (seq (map (\<lambda>c. Atom (Ch c)) u)) (prev_after prev [x]) (u @ rest) = Some ([], u, rest)"
    by (simp add: lit_def)
  from match_at_Cat [OF a b] show ?case by (simp add: lit_def seq_def)
qed

lemma seq_Cons: "seq (r # rs) = Cat r (seq rs)"
  by (simp add: seq_def)

lemma seq_Nil: "seq [] = Eps"
  by (simp add: seq_def)

lemma match_at_seqI:
  assumes "match_at r prev s = Some (g1, c1, r1)"
    and "match_at (seq rs) (prev_after prev c1) r1 = Some (g2, c2, r2)"
    and "g = g1 @ g2" and "c = c1 @ c2"
  shows "match_at (seq (r # rs)) prev s = Some (g, c, r2)"
  using match_at_Cat [OF assms(1,2)] assms(3,4) by (simp add: seq_Cons)

lemma match_at_seq_Nil: "match_at (seq []) prev s = Some ([], [], s)"
  by (simp add: seq_Nil match_at_Eps)

lemma match_at_Atom_app: "cls_ok c x \<Longrightarrow> match_at (Atom c) prev ([x] @ xs) = Some ([], [x], xs)"
  by (simp add: match_at_def)

lemma match_at_md_ref:
  assumes alt: "CHR '']'' \<notin> set alt"
    and src: "src \<noteq> []" "CHR '')'' \<notin> set src" "CHR '' '' \<notin> set src"
    and title: "CHR 0x22 \<notin> set title"
  shows "match_at MD_IMG_RE prev (md_ref alt src title @ post)
         = Some ([alt, src], md_ref alt src title, post)"
proof -
  let ?q = "CHR 0x22"
  let ?t6 = "'')'' @ post"
  let ?t5 = "[?q] @ ?t6"
  let ?t4 = "title @ ?t5"
  let ?t3 = "[?q] @ ?t4"
  let ?t2 = "'' '' @ ?t3"
  let ?t1 = "src @ ?t2"
  let ?t0 = "'']('' @ ?t1"
  let ?ta = "alt @ ?t0"
  let ?tb = "''!['' @ ?ta"
  let ?title = "[Rep Space 1, Atom (Ch ?q), Rep (NoneOf [?q]) 0, Atom (Ch ?q)]"
  have c6: "match_at (seq [lit '')'']) p ?t6 = Some ([], '')'', post)" for p
    by (rule match_at_seqI [OF match_at_lit match_at_seq_Nil]) simp_all
  have i5: "match_at (seq [Atom (Ch ?q)]) p ?t5 = Some ([], [?q], ?t6)" for p
    by (rule match_at_seqI [OF match_at_Atom_app match_at_seq_Nil]) simp_all
  have r4: "match_at (Rep (NoneOf [?q]) 0) p ?t4 = Some ([], title, ?t5)" for p
    by (rule match_at_Rep) (use title in auto)
  have i4: "match_at (seq [Rep (NoneOf [?q]) 0, Atom (Ch ?q)]) p ?t4 = Some ([], title @ [?q], ?t6)" for p
    by (rule match_at_seqI [OF r4 i5]) simp_all
  have i3: "match_at (seq [Atom (Ch ?q), Rep (NoneOf [?q]) 0, Atom (Ch ?q)]) p ?t3
            = Some ([], [?q] @ title @ [?q], ?t6)" for p
    by (rule match_at_seqI [OF match_at_Atom_app i4]) simp_all
  have r2: "match_at (Rep Space 1) p ?t2 = Some ([], '' '', ?t3)" for p
    by (rule match_at_Rep) (simp_all add: is_space_def)
  have i2: "match_at (seq ?title) p ?t2 = Some ([], '' '' @ [?q] @ title @ [?q], ?t6)" for p
    by (rule match_at_seqI [OF r2 i3]) simp_all
  have c5: "match_at (seq [Opt (seq ?title), lit '')'']) p ?t2
            = Some ([], '' '' @ [?q] @ title @ [?q] @ '')'', post)" for p
    by (rule match_at_seqI [OF match_at_Opt [OF i2] c6]) simp_all
  have g1: "match_at (Grp (Rep (NoneOf '') '') 1)) p ?t1 = Some ([src], src, ?t2)" for p
    by (rule match_at_Grp, rule match_at_Rep) (use src in \<open>auto simp: Suc_le_eq\<close>)
  have c4: "match_at (seq [Grp (Rep (NoneOf '') '') 1), Opt (seq ?title), lit '')'']) p ?t1
            = Some ([src], src @ '' '' @ [?q] @ title @ [?q] @ '')'', post)" for p
    by (rule match_at_seqI [OF g1 c5]) simp_all
  have c3: "match_at (seq [lit '']('', Grp (Rep (NoneOf '') '') 1), Opt (seq ?title), lit '')'']) p ?t0
            = Some ([src], '']('' @ src @ '' '' @ [?q] @ title @ [?q] @ '')'', post)" for p
    by (rule match_at_seqI [OF match_at_lit c4]) simp_all
  have ga: "match_at (Grp (Rep (NoneOf '']'') 0)) p ?ta = Some ([alt], alt, ?t0)" for p
    by (rule match_at_Grp, rule match_at_Rep) (use alt in auto)
  have c2: "match_at (seq [Grp (Rep (NoneOf '']'') 0), lit '']('', Grp (Rep (NoneOf '') '') 1),
                           Opt (seq ?title), lit '')'']) p ?ta
            = Some ([alt, src], alt @ '']('' @ src @ '' '' @ [?q] @ title @ [?q] @ '')'', post)" for p
    by (rule match_at_seqI [OF ga c3]) simp_all
  have c1: "match_at MD_IMG_RE prev ?tb
            = Some ([alt, src], ''!['' @ alt @ '']('' @ src @ '' '' @ [?q] @ title @ [?q] @ '')'', post)"
    unfolding MD_IMG_RE_def by (rule match_at_seqI [OF match_at_lit c2]) simp_all
  then show ?thesis by (simp add: md_ref_def)
qed


lemma search_from_hit:
  "match_at r prev s = Some (g, c, rest)
   \<Longrightarrow> search_from r prev s i = Some \<lparr>m_start = i, m_end = i + length c, m_groups = g\<rparr>"
  by (cases s) auto

lemma md_needs_bang: "x \<noteq> CHR ''!'' \<Longrightarrow> match_at MD_IMG_RE prev (x # xs) = None"
  by (simp add: MD_IMG_RE_def seq_def lit_def match_at_def)

lemma search_from_md_skip:
  "CHR ''!'' \<notin> set pre
   \<Longrightarrow> \<exists>p. search_from MD_IMG_RE prev (pre @ s) i = search_from MD_IMG_RE p s (i + length pre)"
proof (induction pre arbitrary: prev i)
  case Nil
  then show ?case by auto
next
  case (Cons x pre)
  from Cons.prems have "x \<noteq> CHR ''!''" by auto
  then have "match_at MD_IMG_RE prev (x # pre @ s) = None"
    by (rule md_needs_bang)
  moreover from Cons obtain p where
    "search_from MD_IMG_RE (Some x) (pre @ s) (Suc i) = search_from MD_IMG_RE p s (Suc i + length pre)"
    by fastforce
  ultimately show ?case by auto
qed

lemma search_md_ref:
  assumes "CHR '']'' \<notin> set alt" "src \<noteq> []" "CHR '')'' \<notin> set src" "CHR '' '' \<notin> set src"
    "CHR 0x22 \<notin> set title"
  shows "search MD_IMG_RE (pre @ md_ref alt src title @ post) (length pre)
         = Some \<lparr>m_start = length pre, m_end = length pre + length (md_ref alt src title),
                  m_groups = [alt, src]\<rparr>"
  unfolding search_def Let_def
  by (simp add: search_from_hit [OF match_at_md_ref [OF assms]])

lemma search_md_ref_0:
  assumes "CHR '']'' \<notin> set alt" "src \<noteq> []" "CHR '')'' \<notin> set src" "CHR '' '' \<notin> set src"
    "CHR 0x22 \<notin> set title" and "CHR ''!'' \<notin> set pre"
  shows "search MD_IMG_RE (pre @ md_ref alt src title @ post) 0
         = Some \<lparr>m_start = length pre, m_end = length pre + length (md_ref alt src title),
                  m_groups = [alt, src]\<rparr>"
proof -
  from search_from_md_skip [OF assms(6)] obtain p where
    "search_from MD_IMG_RE None (pre @ md_ref alt src title @ post) 0
     = search_from MD_IMG_RE p (md_ref alt src title @ post) (0 + length pre)"
    by blast
  then show ?thesis
    unfolding search_def Let_def
    by (simp add: search_from_hit [OF match_at_md_ref [OF assms(1-5)]])
qed

lemma locate_md_ref:
  assumes "CHR '']'' \<notin> set alt" "src \<noteq> []" "CHR '')'' \<notin> set src" "CHR '' '' \<notin> set src"
    "CHR 0x22 \<notin> set title" and "CHR ''!'' \<notin> set pre"
  shows "\<exists>rest. find_images_in_markdown (pre @ md_ref alt src title @ post) = (Md, src, length pre) # rest"
  unfolding find_images_in_markdown_def finditer_def
  by (subst finditer_from.simps) (simp add: search_md_ref_0 [OF assms] group_def)

text \<open>The matches of \<open>finditer\<close> start at strictly increasing offsets.\<close>

lemma search_from_start:
  "search_from r prev s i = Some m \<Longrightarrow> i \<le> m_start m \<and> m_start m \<le> m_end m"
proof (induction s arbitrary: prev i)
  case Nil
  then show ?case by (auto split: option.splits)
next
  case (Cons x xs)
  show ?case
  proof (cases "match_at r prev (x # xs)")
    case None
    with Cons.prems have "search_from r (Some x) xs (Suc i) = Some m" by simp
    from Cons.IH [OF this] show ?thesis by simp
  next
    case (Some w)
    with Cons.prems show ?thesis by (auto split: prod.splits)
  qed
qed

lemma search_start:
  assumes "search r t pos = Some m" and "pos \<le> length t"
  shows "pos \<le> m_start m \<and> m_start m \<le> m_end m"
  using assms search_from_start [of r _ "drop pos t" pos m]
  by (simp add: search_def Let_def min_def)

lemma finditer_from_increasing:
  "sorted_wrt (<) (map m_start (finditer_from r t pos))
   \<and> (\<forall>m \<in> set (finditer_from r t pos). pos \<le> m_start m)"
proof (induction r t pos rule: finditer_from.induct)
  case (1 r t pos)
  show ?case
  proof (cases "length t < pos")
    case True
    then show ?thesis by (simp add: finditer_from.simps)
  next
    case inside: False
    show ?thesis
    proof (cases "search r t pos")
      case None
      with inside show ?thesis by (simp add: finditer_from.simps)
    next
      case (Some m)
      let ?next = "if m_end m = m_start m then Suc (m_end m) else m_end m"
      from search_start [OF Some] inside
      have b: "pos \<le> m_start m" "m_start m \<le> m_end m" by auto
      then have lt: "m_start m < ?next" by auto
      from "1.IH" [OF inside Some]
      have ih: "sorted_wrt (<) (map m_start (finditer_from r t ?next))"
        "\<forall>m' \<in> set (finditer_from r t ?next). ?next \<le> m_start m'"
        by auto
      have unfold: "finditer_from r t pos = m # finditer_from r t ?next"
        using inside Some by (subst finditer_from.simps) simp
      from ih lt b show ?thesis
        unfolding unfold by fastforce
    qed
  qed
qed

lemma html_ref_cases:
  "html_ref t m = [] \<or> (\<exists>s. html_ref t m = [(Html, s, m_start m)])"
  by (simp add: html_ref_def split: option.splits)

lemma html_refs_increasing:
  "sorted_wrt (<) (map m_start ms)
   \<Longrightarrow> sorted_wrt (<) (map ref_offset (concat (map (html_ref t) ms)))
       \<and> (\<forall>p \<in> set (concat (map (html_ref t) ms)). ref_offset p \<in> m_start ` set ms)"
proof (induction ms)
  case Nil
  then show ?case by simp
next
  case (Cons m ms)
  from Cons.prems have tail: "sorted_wrt (<) (map m_start ms)"
    and above: "\<forall>m' \<in> set ms. m_start m < m_start m'"
    by simp_all
  from Cons.IH [OF tail]
  have ih1: "sorted_wrt (<) (map ref_offset (concat (map (html_ref t) ms)))"
    and ih2: "\<forall>p \<in> set (concat (map (html_ref t) ms)). ref_offset p \<in> m_start ` set ms"
    by blast+
  from html_ref_cases [of t m] show ?case
  proof
    assume e: "html_ref t m = []"
    have "concat (map (html_ref t) (m # ms)) = concat (map (html_ref t) ms)"
      by (simp add: e)
    with ih1 ih2 show ?thesis by auto
  next
    assume "\<exists>s. html_ref t m = [(Html, s, m_start m)]"
    then obtain s where s: "html_ref t m = [(Html, s, m_start m)]" ..
    have c: "concat (map (html_ref t) (m # ms)) = (Html, s, m_start m) # concat (map (html_ref t) ms)"
      by (simp add: s)
    have "\<forall>p \<in> set (concat (map (html_ref t) ms)). m_start m < ref_offset p"
      using ih2 above by (metis imageE)
    with ih1 ih2 show ?thesis unfolding c by auto
  qed
qed

lemma html_refs_kind:
  "\<forall>p \<in> set (concat (map (html_ref t) ms)). ref_kind p = Html"
  by (auto simp: html_ref_def split: option.splits)

section \<open>Facts about sources and paths\<close>












lemma first_existing_total:
  assumes "\<And>p. ex p = Inr (present p)"
  shows "first_existing ex cs = Inr (List.find present cs)"
  by (induction cs) (simp_all add: assms)



section \<open>Facts about dry-run mode\<close>

text \<open>
  While the text is unchanged, the search from the offset of a located match finds that
  match again. So in dry-run mode, when no existence check raises, every located image
  gets one record, with the caption of its own source, and no document is written.
\<close>

lemma search_from_sound:
  "search_from r prev s i = Some m
   \<Longrightarrow> \<exists>k g c rest. k \<le> length s
         \<and> m = \<lparr>m_start = i + k, m_end = i + k + length c, m_groups = g\<rparr>
         \<and> match_at r (if k = 0 then prev else Some (s ! (k - 1))) (drop k s) = Some (g, c, rest)"
proof (induction s arbitrary: prev i)
  case Nil
  then show ?case by (auto split: option.splits)
next
  case (Cons x xs)
  show ?case
  proof (cases "match_at r prev (x # xs)")
    case None
    with Cons.prems have "search_from r (Some x) xs (Suc i) = Some m" by simp
    from Cons.IH [OF this] obtain k g c rest where k: "k \<le> length xs"
      "m = \<lparr>m_start = Suc i + k, m_end = Suc i + k + length c, m_groups = g\<rparr>"
      "match_at r (if k = 0 then Some x else Some (xs ! (k - 1))) (drop k xs) = Some (g, c, rest)"
      by blast
    have "(if k = 0 then Some x else Some (xs ! (k - 1))) = Some ((x # xs) ! k)"
      by (cases k) auto
    with k show ?thesis
      by (intro exI [of _ "Suc k"] exI [of _ g] exI [of _ c] exI [of _ rest]) simp
  next
    case (Some w)
    obtain g c rest where w: "w = (g, c, rest)" by (cases w)
    with Some Cons.prems show ?thesis
      by (intro exI [of _ 0] exI [of _ g] exI [of _ c] exI [of _ rest]) auto
  qed
qed

lemma search_again:
  assumes "search r t pos = Some m" and "pos \<le> length t"
  shows "search r t (m_start m) = Some m"
proof -
  let ?prev = "if pos = 0 then None else Some (t ! (pos - 1))"
  from assms have "search_from r ?prev (drop pos t) pos = Some m"
    by (simp add: search_def Let_def min_def)
  from search_from_sound [OF this] obtain k g c rest where k: "k \<le> length t - pos"
    and m: "m = \<lparr>m_start = pos + k, m_end = pos + k + length c, m_groups = g\<rparr>"
    and hit: "match_at r (if k = 0 then ?prev else Some (drop pos t ! (k - 1))) (drop k (drop pos t))
              = Some (g, c, rest)"
    by auto
  have le: "pos + k \<le> length t" using k assms(2) by simp
  have prev: "(if k = 0 then ?prev else Some (drop pos t ! (k - 1)))
              = (if pos + k = 0 then None else Some (t ! (pos + k - 1)))"
    using assms(2) by (cases k) (auto simp: nth_drop)
  have "search_from r (if pos + k = 0 then None else Some (t ! (pos + k - 1))) (drop (pos + k) t) (pos + k)
        = Some m"
    using search_from_hit [of r _ "drop (pos + k) t" g c rest "pos + k"] hit
    unfolding prev m by (simp add: add.commute)
  then show ?thesis
    using le by (simp add: search_def Let_def min_def m)
qed

lemma finditer_from_again:
  "m \<in> set (finditer_from r t pos) \<Longrightarrow> search r t (m_start m) = Some m"
proof (induction r t pos rule: finditer_from.induct)
  case (1 r t pos)
  show ?case
  proof (cases "length t < pos")
    case True
    with "1.prems" show ?thesis by (simp add: finditer_from.simps)
  next
    case inside: False
    show ?thesis
    proof (cases "search r t pos")
      case None
      with inside "1.prems" show ?thesis by (simp add: finditer_from.simps)
    next
      case (Some m0)
      let ?next = "if m_end m0 = m_start m0 then Suc (m_end m0) else m_end m0"
      have "finditer_from r t pos = m0 # finditer_from r t ?next"
        using inside Some by (subst finditer_from.simps) simp
      with "1.prems" have "m = m0 \<or> m \<in> set (finditer_from r t ?next)" by auto
      then show ?thesis
      proof
        assume "m = m0"
        with search_again [OF Some] inside show ?thesis by simp
      next
        assume "m \<in> set (finditer_from r t ?next)"
        from "1.IH" [OF inside Some this] show ?thesis .
      qed
    qed
  qed
qed

lemma located_can_be_relocated:
  "(k, src, pos) \<in> set (find_images_in_markdown t) \<Longrightarrow> relocate k t pos \<noteq> None"
proof -
  assume "(k, src, pos) \<in> set (find_images_in_markdown t)"
  then consider
    (md) m where "m \<in> set (finditer MD_IMG_RE t)" "k = Md" "pos = m_start m"
    | (html) m where "m \<in> set (finditer HTML_IMG_RE t)" "k = Html" "pos = m_start m"
    by (auto simp: find_images_in_markdown_def html_ref_def split: option.splits)
  then show ?thesis
  proof cases
    case md
    then show ?thesis
      using finditer_from_again [of m MD_IMG_RE t 0] by (simp add: finditer_def relocate_def)
  next
    case html
    then show ?thesis
      using finditer_from_again [of m HTML_IMG_RE t 0] by (simp add: finditer_def relocate_def)
  qed
qed

lemma caption_elsewhere_ignores_transient_files:
  "fst (caption_elsewhere e src tmp1) = fst (caption_elsewhere e src tmp2)"
  by (auto simp: caption_elsewhere_def caption_remote_image_def Let_def split: sum.splits)

lemma resolve_image_path_returns:
  assumes "\<And>p. ex p = Inr (present p)"
  shows "\<exists>r. resolve_image_path ex src md_path = Inr r"
  by (simp add: resolve_image_path_def Let_def first_existing_total [OF assms]
        split: option.splits del: first_existing.simps)

lemma get_caption_returns:
  assumes "\<And>p. exists_file e p = Inr (present p)"
  shows "\<exists>tmp'. get_caption e src md_path tmp = Inr (caption_of e md_path src, tmp')"
proof -
  from resolve_image_path_returns [of "exists_file e" present src md_path, OF assms]
  obtain r where r: "resolve_image_path (exists_file e) src md_path = Inr r" by blast
  have other: "\<exists>tmp'. caption_elsewhere e src tmp
                 = (fst (caption_elsewhere e src \<lparr>live = [], fresh = 0\<rparr>), tmp')"
    using caption_elsewhere_ignores_transient_files [of e src tmp "\<lparr>live = [], fresh = 0\<rparr>"]
    by (cases "caption_elsewhere e src tmp") auto
  show ?thesis
  proof (cases r)
    case None
    with r other show ?thesis
      by (cases "caption_elsewhere e src \<lparr>live = [], fresh = 0\<rparr>")
         (auto simp: get_caption_def caption_of_def)
  next
    case (Some img_path)
    with r other assms [of img_path] show ?thesis
      by (cases "caption_elsewhere e src \<lparr>live = [], fresh = 0\<rparr>")
         (auto simp: get_caption_def caption_of_def)
  qed
qed

lemma dry_run_loop:
  assumes "\<forall>img \<in> set imgs. relocate (ref_kind img) (s_txt st) (ref_offset img) \<noteq> None"
    and "\<And>p. exists_file e p = Inr (present p)"
  shows "\<exists>st'. process_images e md_path False imgs st = Inr st'
           \<and> s_txt st' = s_txt st
           \<and> length (s_changes st') = length (s_changes st) + length imgs
           \<and> map (\<lambda>(p, k, src, old, c). (p, k, src, c)) (s_changes st')
             = map (\<lambda>(p, k, src, old, c). (p, k, src, c)) (s_changes st)
               @ map (\<lambda>(k, src, pos). (md_path, k, src, caption_of e md_path src)) imgs"
  using assms(1)
proof (induction imgs arbitrary: st)
  case Nil
  then show ?case by simp
next
  case (Cons img imgs)
  obtain k src pos where img: "img = (k, src, pos)" by (cases img)
  from Cons.prems img obtain m old where rel: "relocate k (s_txt st) pos = Some (m, old)"
    by fastforce
  from get_caption_returns [of e present src md_path "s_tmp st", OF assms(2)]
  obtain c tmp' where cap: "get_caption e src md_path (s_tmp st) = Inr (c, tmp')"
    and c: "c = caption_of e md_path src"
    by blast
  let ?st1 = "st\<lparr>s_changes := s_changes st @ [(md_path, k, src, old, c)], s_tmp := tmp'\<rparr>"
  have step: "process_image e md_path False img st = Inr ?st1"
    by (simp add: process_image_def img rel cap)
  have "\<forall>img \<in> set imgs. relocate (ref_kind img) (s_txt ?st1) (ref_offset img) \<noteq> None"
    using Cons.prems by simp
  from Cons.IH [OF this] obtain st' where st': "process_images e md_path False imgs ?st1 = Inr st'"
    "s_txt st' = s_txt ?st1"
    "length (s_changes st') = length (s_changes ?st1) + length imgs"
    "map (\<lambda>(p, k, src, old, c). (p, k, src, c)) (s_changes st')
     = map (\<lambda>(p, k, src, old, c). (p, k, src, c)) (s_changes ?st1)
       @ map (\<lambda>(k, src, pos). (md_path, k, src, caption_of e md_path src)) imgs"
    by blast
  have "process_images e md_path False (img # imgs) st = Inr st'"
    by (simp add: step st'(1))
  moreover have "s_txt st' = s_txt st" using st'(2) by simp
  moreover have "length (s_changes st') = length (s_changes st) + length (img # imgs)"
    using st'(3) by simp
  moreover have "map (\<lambda>(p, k, src, old, c). (p, k, src, c)) (s_changes st')
      = map (\<lambda>(p, k, src, old, c). (p, k, src, c)) (s_changes st)
        @ map (\<lambda>(k, src, pos). (md_path, k, src, caption_of e md_path src)) (img # imgs)"
    using st'(4) by (simp add: img c)
  ultimately show ?case by blast
qed

lemma dry_run_one_record_per_image:
  assumes "docs w md_path = Some t"
    and "\<And>p. exists_file e p = Inr (present p)"
  shows "\<exists>ch w'. process_file e md_path False w = Inr (ch, w')
           \<and> docs w' = docs w
           \<and> length ch = length (find_images_in_markdown t)
           \<and> map (\<lambda>(p, k, src, old, c). (p, k, src, c)) ch
             = map (\<lambda>(k, src, pos). (md_path, k, src, caption_of e md_path src))
                 (find_images_in_markdown t)"
proof -
  let ?st = "\<lparr>s_txt = t, s_changes = [], s_tmp = tmpfiles w\<rparr>"
  have "\<forall>img \<in> set (find_images_in_markdown t). relocate (ref_kind img) (s_txt ?st) (ref_offset img) \<noteq> None"
    using located_can_be_relocated by fastforce
  from dry_run_loop [OF this assms(2), of md_path] obtain st' where
    "process_images e md_path False (find_images_in_markdown t) ?st = Inr st'"
    "s_txt st' = t"
    "length (s_changes st') = length (find_images_in_markdown t)"
    "map (\<lambda>(p, k, src, old, c). (p, k, src, c)) (s_changes st')
     = map (\<lambda>(k, src, pos). (md_path, k, src, caption_of e md_path src)) (find_images_in_markdown t)"
    by auto
  then show ?thesis
    using assms(1) by (simp add: process_file_def)
qed

section \<open>Facts about rewriting a tag and about transient files\<close>

text \<open>
  A replacement template with no backslash stands for itself. A tag with no alt
  attribute gets the caption appended verbatim; a tag with an alt attribute gets it
  through \<^verbatim>\<open>sub\<close>, verbatim when the caption has no backslash.
\<close>

lemma parse_template_literal:
  "CHR 0x5C \<notin> set s \<Longrightarrow> parse_template n s = Inr (map TLit s)"
proof (induction s)
  case Nil
  show ?case by (simp add: parse_template.simps)
next
  case (Cons c s)
  then have "c \<noteq> CHR 0x5C" and "parse_template n s = Inr (map TLit s)" by auto
  then show ?case by (simp add: parse_template.simps(2) [of n c s] add_item_def)
qed

lemma expand_literal: "expand t m (map TLit s) = s"
  by (induction s) simp_all

lemma tag_without_alt_gets_caption:
  "new_tag ''<img src=\"a.png\">'' caption = Inr (''<img src=\"a.png\" alt=\"'' @ caption @ ''\">'')"
proof -
  have "search ALT_RE ''<img src=\"a.png\">'' 0 = None" by code_simp
  then show ?thesis by (simp add: new_tag_def rstrip_def)
qed

lemma tag_with_alt_gets_plain_caption:
  assumes "CHR 0x5C \<notin> set caption"
  shows "new_tag ''<img src=\"a.png\" alt=\"old\">'' caption
         = Inr (''<img src=\"a.png\" alt=\"'' @ caption @ ''\">'')"
proof -
  have found: "search ALT_RE ''<img src=\"a.png\" alt=\"old\">'' 0 \<noteq> None" by code_simp
  have ms: "finditer ALT_RE ''<img src=\"a.png\" alt=\"old\">''
            = [\<lparr>m_start = 17, m_end = 26, m_groups = [''old'']\<rparr>]"
    by code_simp
  have tpl: "parse_template 1 (''alt='' @ [CHR 0x22] @ caption @ [CHR 0x22])
             = Inr (map TLit (''alt='' @ [CHR 0x22] @ caption @ [CHR 0x22]))"
    by (rule parse_template_literal) (use assms in simp)
  show ?thesis
    unfolding new_tag_def re_sub_def tpl ms using found
    by (simp add: expand_literal del: map_append)
qed

lemma transient_file_kept_when_api_raises:
  assumes "http_get e src = Inr content" and "hf_api_bytes e content = Inl msg"
  shows "caption_remote_image e src tmp
         = (error_caption msg, \<lparr>live = fresh tmp # live tmp, fresh = Suc (fresh tmp)\<rparr>)"
  using assms by (simp add: caption_remote_image_def Let_def)

lemma transient_file_removed_when_api_returns:
  assumes "http_get e src = Inr content" and "hf_api_bytes e content = Inr c"
  shows "caption_remote_image e src tmp = (c, \<lparr>live = live tmp, fresh = Suc (fresh tmp)\<rparr>)"
  using assms by (simp add: caption_remote_image_def Let_def)

section \<open>Facts about rewriting the first Markdown reference\<close>

text \<open>
  For a Markdown reference \<^verbatim>\<open>![alt](src "title")\<close> in a text that has not been rewritten
  yet (after a prefix with no exclamation mark the locator lists it first) and a non-empty
  caption, one turn of the loop in apply mode replaces the whole span by
  \<^verbatim>\<open>![caption](src)\<close>: the title is dropped, the destination is unchanged, the text
  around it is untouched.
\<close>

lemma first_markdown_reference_rewritten:
  assumes "CHR '']'' \<notin> set alt" "src \<noteq> []" "CHR '')'' \<notin> set src" "CHR '' '' \<notin> set src"
    and "CHR 0x22 \<notin> set title"
    and "caption \<noteq> []"
    and "get_caption e src md_path (s_tmp st) = Inr (caption, tmp')"
    and "s_txt st = pre @ ''!['' @ alt @ '']('' @ src @ '' '' @ [CHR 0x22] @ title @ [CHR 0x22] @ '')'' @ post"
    and "CHR ''!'' \<notin> set pre"
  shows "(\<exists>rest. find_images_in_markdown (s_txt st) = (Md, src, length pre) # rest)
    \<and> process_image e md_path True (Md, src, length pre) st
        = Inr (st\<lparr>s_txt := pre @ ''!['' @ caption @ '']('' @ src @ '')'' @ post,
                  s_changes := s_changes st @ [(md_path, Md, src, alt, caption)],
                  s_tmp := tmp'\<rparr>)"
proof -
  have t: "s_txt st = pre @ md_ref alt src title @ post"
    using assms(8) by (simp add: md_ref_def)
  have loc: "\<exists>rest. find_images_in_markdown (s_txt st) = (Md, src, length pre) # rest"
    unfolding t by (rule locate_md_ref [OF assms(1-5) assms(9)])
  have rel: "relocate Md (s_txt st) (length pre)
     = Some (\<lparr>m_start = length pre, m_end = length pre + length (md_ref alt src title),
               m_groups = [alt, src]\<rparr>, alt)"
    unfolding t relocate_def by (simp add: search_md_ref [OF assms(1-5)] group_def)
  have rw: "rewrite Md caption src (s_txt st)
       \<lparr>m_start = length pre, m_end = length pre + length (md_ref alt src title), m_groups = [alt, src]\<rparr>
     = Inr (pre @ ''!['' @ caption @ '']('' @ src @ '')'' @ post)"
    unfolding t rewrite_def by simp
  have "process_image e md_path True (Md, src, length pre) st
        = Inr (st\<lparr>s_txt := pre @ ''!['' @ caption @ '']('' @ src @ '')'' @ post,
                  s_changes := s_changes st @ [(md_path, Md, src, alt, caption)],
                  s_tmp := tmp'\<rparr>)"
    unfolding process_image_def using assms(6,7) by (simp add: rel rw)
  with loc show ?thesis by blast
qed


lemma first_markdown_reference_rewritten_example:
  "process_image (local_env (\<lambda>p. Inr ''a cat'')) doc_a True (Md, ''pic.png'', 4)
     \<lparr>s_txt = ''See ![old](pic.png \"My title\") here'', s_changes = [], s_tmp = \<lparr>live = [], fresh = 0\<rparr>\<rparr>
   = Inr \<lparr>s_txt = ''See ![a cat](pic.png) here'',
           s_changes = [(doc_a, Md, ''pic.png'', ''old'', ''a cat'')],
           s_tmp = \<lparr>live = [], fresh = 0\<rparr>\<rparr>
   \<and> (\<exists>rest. find_images_in_markdown ''See ![old](pic.png \"My title\") here'' = (Md, ''pic.png'', 4) # rest)"
proof -
  let ?st = "\<lparr>s_txt = ''See ![old](pic.png \"My title\") here'', s_changes = [],
              s_tmp = \<lparr>live = [], fresh = 0\<rparr>\<rparr>"
  have h1: "CHR '']'' \<notin> set ''old''" by simp
  have h2: "''pic.png'' \<noteq> []" by simp
  have h3: "CHR '')'' \<notin> set ''pic.png''" by simp
  have h4: "CHR '' '' \<notin> set ''pic.png''" by simp
  have h5: "CHR 0x22 \<notin> set ''My title''" by simp
  have h6: "''a cat'' \<noteq> []" by simp
  have h7: "get_caption (local_env (\<lambda>p. Inr ''a cat'')) ''pic.png'' doc_a (s_tmp ?st)
            = Inr (''a cat'', \<lparr>live = [], fresh = 0\<rparr>)"
    by code_simp
  have h8: "s_txt ?st = ''See '' @ ''!['' @ ''old'' @ '']('' @ ''pic.png'' @ '' '' @ [CHR 0x22]
              @ ''My title'' @ [CHR 0x22] @ '')'' @ '' here''"
    by simp
  have h9: "CHR ''!'' \<notin> set ''See ''" by simp
  from first_markdown_reference_rewritten [OF h1 h2 h3 h4 h5 h6 h7 h8 h9]
  show ?thesis by (simp add: eval_nat_numeral)
qed

section \<open>The path resolver\<close>




section \<open>The order of the located references\<close>

text \<open>
  C2 as stated: the locator returns the references in the order their matches occur in
  the text. It does not: an HTML tag at offset 0 comes after a Markdown image at
  offset 18.
\<close>

theorem locator_order_counterexample:
  "find_images_in_markdown ''<img src=\"a.png\"> ![b](c.png)'' = [(Md, ''c.png'', 18), (Html, ''a.png'', 0)]
   \<and> \<not> sorted (map ref_offset (find_images_in_markdown ''<img src=\"a.png\"> ![b](c.png)''))"
  by code_simp

text \<open>
  C2, amended. The locator returns every Markdown match in text order, followed by every
  HTML tag that has a \<^verbatim>\<open>src\<close> attribute in text order.
\<close>

theorem locator_lists_markdown_then_html:
  "(let found = find_images_in_markdown t;
        mds = filter (\<lambda>i. ref_kind i = Md) found;
        htmls = filter (\<lambda>i. ref_kind i = Html) found
    in found = mds @ htmls
       \<and> sorted_wrt (<) (map ref_offset mds)
       \<and> sorted_wrt (<) (map ref_offset htmls)
       \<and> mds = map (\<lambda>m. (Md, group m 2, m_start m)) (finditer MD_IMG_RE t)
       \<and> htmls = concat (map (html_ref t) (finditer HTML_IMG_RE t)))"
proof -
  let ?mds = "map (\<lambda>m. (Md, group m 2, m_start m)) (finditer MD_IMG_RE t)"
  let ?htmls = "concat (map (html_ref t) (finditer HTML_IMG_RE t))"
  have k: "\<forall>p \<in> set ?htmls. ref_kind p = Html" by (rule html_refs_kind)
  have f1: "filter (\<lambda>i. ref_kind i = Md) (?mds @ ?htmls) = ?mds"
    using k by (auto simp: filter_empty_conv o_def)
  have f2: "filter (\<lambda>i. ref_kind i = Html) (?mds @ ?htmls) = ?htmls"
    using k by (auto simp: filter_empty_conv filter_id_conv o_def)
  have s1: "sorted_wrt (<) (map ref_offset ?mds)"
    using finditer_from_increasing [of MD_IMG_RE t 0] by (simp add: finditer_def o_def)
  have s2: "sorted_wrt (<) (map ref_offset ?htmls)"
    using finditer_from_increasing [of HTML_IMG_RE t 0] html_refs_increasing [of "finditer HTML_IMG_RE t" t]
    by (simp add: finditer_def)
  show ?thesis
    unfolding Let_def find_images_in_markdown_def f1 f2 using s1 s2 by simp
qed

section \<open>Rewriting a Markdown reference\<close>

text \<open>
  C6. A Markdown reference \<^verbatim>\<open>![alt](src "title")\<close> should be replaced by
  \<^verbatim>\<open>![caption](src)\<close>, title dropped. The first reference of a document is
  (\<open>first_markdown_reference_rewritten\<close>). A later one is searched from its offset in
  the original text: below, the first rewrite moves the second reference from offset 25
  to offset 16, the search from 25 finds nothing, and the second reference keeps its
  title, its empty alt text, and gets no record.
\<close>

theorem later_markdown_reference_keeps_title:
  "(let r = process_file (local_env (\<lambda>p. Inr ''a cat'')) doc_a True
              (one_doc ''![](a.png \"First photo\") ![](b.png \"Second\")'')
    in find_images_in_markdown ''![](a.png \"First photo\") ![](b.png \"Second\")''
         = [(Md, ''a.png'', 0), (Md, ''b.png'', 25)]
       \<and> report_of r = Inr [(doc_a, Md, ''a.png'', [], ''a cat'')]
       \<and> docs (world_after (one_doc []) r) doc_a = Some ''![a cat](a.png) ![](b.png \"Second\")'')"
  by code_simp

section \<open>Stale offsets in apply mode\<close>

text \<open>
  C1. Every image reference found by the locator should give exactly one change record,
  in apply mode as in dry-run mode. On the document below the locator finds two
  references, and in apply mode \<open>process_file\<close> returns one record: rewriting the
  first image shortens the text, the search from the recorded offset of the second finds
  nothing, and the loop skips it.
\<close>

theorem apply_mode_loses_a_record:
  "length (find_images_in_markdown ''![an old description](a.png) ![](b.png)'') = 2
   \<and> report_of (process_file (local_env (\<lambda>p. Inr ''a cat'')) doc_a True
         (one_doc ''![an old description](a.png) ![](b.png)''))
       = Inr [(doc_a, Md, ''a.png'', ''an old description'', ''a cat'')]"
  by code_simp

text \<open>
  C3. Dry-run mode and apply mode should give the same report. On the same document
  set the dry-run report has two rows and the apply report has one.
\<close>

theorem dry_run_and_apply_reports_differ:
  "report_of (run (local_env (\<lambda>p. Inr ''a cat'')) False [doc_a] []
         (one_doc ''![an old description](a.png) ![](b.png)''))
     = Inr [(doc_a, Md, ''a.png'', ''an old description'', ''a cat''),
            (doc_a, Md, ''b.png'', [], ''a cat'')]
   \<and> report_of (run (local_env (\<lambda>p. Inr ''a cat'')) True [doc_a] []
         (one_doc ''![an old description](a.png) ![](b.png)''))
     = Inr [(doc_a, Md, ''a.png'', ''an old description'', ''a cat'')]"
  by code_simp

text \<open>
  C5. When captioning one image raises, the other images should still get their
  captions. Here captioning \<^verbatim>\<open>a.png\<close> raises and captioning \<^verbatim>\<open>b.png\<close> returns a
  caption; in apply mode the placeholder is written over the first image, and the second
  image gets neither a record nor its caption.
\<close>

theorem failed_caption_hides_next_image:
  "(let f = (\<lambda>p. if p = Path False [''content'', ''a.png''] then Inl ''boom'' else Inr ''a cat'');
        r = process_file (local_env f) doc_a True (one_doc ''![an old description](a.png) ![](b.png)'')
    in report_of r = Inr [(doc_a, Md, ''a.png'', ''an old description'', ''(error: boom)'')]
       \<and> docs (world_after (one_doc []) r) doc_a = Some ''![(error: boom)](a.png) ![](b.png)'')"
  by code_simp

section \<open>The transient file of a remote image\<close>

text \<open>
  C4. The transient file of a remote image should be removed whether the remote
  captioning call returns or raises. When the call raises, the file is still there after
  \<open>process_file\<close>: the unlink is the last statement of the guarded block.
\<close>

theorem transient_file_left_when_api_raises:
  "(let r = process_file (remote_env (\<lambda>b. Inl ''503 Server Error'')) doc_a False
              (one_doc ''![](https://example.org/a.png)'')
    in report_of r = Inr [(doc_a, Md, ''https://example.org/a.png'', [], ''(error: 503 Server Error)'')]
       \<and> live (tmpfiles (world_after (one_doc []) r)) = [0])
   \<and> (let r = process_file (remote_env (\<lambda>b. Inr ''a cat'')) doc_a False
              (one_doc ''![](https://example.org/a.png)'')
      in report_of r = Inr [(doc_a, Md, ''https://example.org/a.png'', [], ''a cat'')]
         \<and> live (tmpfiles (world_after (one_doc []) r)) = [])"
  by code_simp

section \<open>Captions written into HTML tags\<close>

text \<open>
  C7. Rewriting \<^verbatim>\<open><img src="a.png" alt="old">\<close> with a caption should put the caption
  in place of \<^verbatim>\<open>old\<close>. The caption is handed to \<^verbatim>\<open>sub\<close> as a replacement template:
  the caption \<^verbatim>\<open>\1\<close> is replaced by the old alt text, so the tag keeps \<^verbatim>\<open>old\<close>, and the
  caption \<^verbatim>\<open>C:\img\<close> is a bad escape, so \<open>process_file\<close> raises.
\<close>

theorem caption_with_backslash_not_written:
  "docs (world_after (one_doc [])
          (process_file (local_env (\<lambda>p. Inr [CHR 0x5C, CHR ''1''])) doc_a True
             (one_doc ''<img src=\"a.png\" alt=\"old\">''))) doc_a
     = Some ''<img src=\"a.png\" alt=\"old\">''
   \<and> report_of (process_file (local_env (\<lambda>p. Inr (''C:'' @ [CHR 0x5C] @ ''img''))) doc_a True
         (one_doc ''<img src=\"a.png\" alt=\"old\">''))
     = Inl TemplateError"
  by code_simp

text \<open>
  C10. In apply mode the placeholder of a failed caption should be written as the new
  alt text of the image. For an HTML tag that has an alt attribute the placeholder goes
  through \<^verbatim>\<open>sub\<close> as a template: with the message \<^verbatim>\<open>C:\img\<close> the call raises and
  nothing is written.
\<close>

theorem placeholder_with_backslash_not_written:
  "report_of (process_file (local_env (\<lambda>p. Inl (''C:'' @ [CHR 0x5C] @ ''img''))) doc_a True
       (one_doc ''<img src=\"a.png\" alt=\"old\">''))
     = Inl TemplateError
   \<and> report_of (process_file (local_env (\<lambda>p. Inl (''C:'' @ [CHR 0x5C] @ ''img''))) doc_a False
         (one_doc ''<img src=\"a.png\" alt=\"old\">''))
     = Inr [(doc_a, Html, ''a.png'', ''old'', ''(error: C:'' @ [CHR 0x5C] @ ''img)'')]"
  by code_simp

section \<open>A second apply run\<close>

text \<open>
  C8. A second apply run on the output of a first one should change nothing. The first
  run writes the caption \<^verbatim>\<open>a dog's toy\<close> between double quotes; the second run reads
  the alt text up to the apostrophe and replaces only that part, so the text grows.
\<close>

theorem second_apply_run_changes_text:
  "(let e = local_env (\<lambda>p. Inr (''a dog'' @ [CHR 0x27] @ ''s toy''));
        w0 = one_doc ''<img src=\"a.png\">'';
        w1 = world_after w0 (process_file e doc_a True w0);
        w2 = world_after w1 (process_file e doc_a True w1)
    in docs w1 doc_a = Some (''<img src=\"a.png\" alt=\"a dog'' @ [CHR 0x27] @ ''s toy\">'')
       \<and> docs w2 doc_a = Some (''<img src=\"a.png\" alt=\"a dog'' @ [CHR 0x27] @ ''s toy\"s toy\">''))"
  by code_simp

end
